theory Spec2Isabelle
  imports Main
begin

section \<open>Python values and strings\<close>

text \<open>
  A Python \<open>str\<close> is a sequence of Unicode code points; a code point is modelled as a
  natural number, so that \<open>len\<close> counts code points as Python does.  \<open>ustr\<close> turns an
  ASCII literal into such a sequence.
\<close>

type_synonym ustr = "nat list"

definition ustr :: "string \<Rightarrow> ustr" where
  "ustr s = map of_char s"

text \<open>
  The values a dataset cell (and hence \<open>tagged_text\<close>) can hold: \<open>None\<close>, a string, the
  float NaN that pandas uses for an empty spreadsheet cell, or an integer.
\<close>

datatype pyval = PyNone | PyStr ustr | PyNaN | PyInt int

text \<open>Python truthiness, as used by \<open>x or y\<close> and \<open>if not x\<close>.\<close>

fun truthy :: "pyval \<Rightarrow> bool" where
  "truthy PyNone = False"
| "truthy (PyStr s) = (s \<noteq> [])"
| "truthy PyNaN = True"
| "truthy (PyInt n) = (n \<noteq> 0)"

text \<open>\<open>x or y\<close>: the first operand if it is truthy, otherwise the second.\<close>

definition py_or :: "pyval \<Rightarrow> pyval \<Rightarrow> pyval" where
  "py_or x y = (if truthy x then x else y)"

text \<open>
  \<open>str.isspace\<close> for one code point: the characters \<open>str.strip()\<close> removes
  (tab to carriage return, the separators 0x1C to 0x1F, space, NEL, no-break space,
  ogham space, the en/em spaces 0x2000 to 0x200A, line and paragraph separator,
  narrow no-break space, medium mathematical space, ideographic space).
\<close>

definition isspace :: "nat \<Rightarrow> bool" where
  "isspace c =
     ((9 \<le> c \<and> c \<le> 13) \<or> (28 \<le> c \<and> c \<le> 32) \<or> c = 133 \<or> c = 160 \<or> c = 5760 \<or>
      (8192 \<le> c \<and> c \<le> 8202) \<or> c = 8232 \<or> c = 8233 \<or> c = 8239 \<or> c = 8287 \<or> c = 12288)"

definition strip :: "ustr \<Rightarrow> ustr" where
  "strip s = rev (dropWhile isspace (rev (dropWhile isspace s)))"

text \<open>The slice \<open>s[a:b]\<close> for indices \<open>0 \<le> a\<close>, \<open>0 \<le> b\<close> (empty when \<open>b \<le> a\<close>).\<close>

definition slice :: "ustr \<Rightarrow> nat \<Rightarrow> nat \<Rightarrow> ustr" where
  "slice s a b = take (b - a) (drop a s)"

section \<open>The tag pattern\<close>

text \<open>
  \<open>TAG_PATTERN = re.compile(r"\[([^\[\]]+)\]")\<close>: an opening bracket (code point 91),
  group 1 a greedy run of one or more characters that are not a bracket, a closing
  bracket (code point 93).
\<close>

definition not_bracket :: "nat \<Rightarrow> bool" where
  "not_bracket c = (c \<noteq> 91 \<and> c \<noteq> 93)"

text \<open>
  The pattern anchored at the head of \<open>s\<close>.  The character class excludes both brackets,
  so the greedy run stops at the first bracket and no shorter run can be followed by a
  closing bracket: the match exists exactly when the maximal run is non-empty and the
  character after it is the closing bracket.  The result is group 1.
\<close>

definition tag_match :: "ustr \<Rightarrow> ustr option" where
  "tag_match s =
     (case s of
        [] \<Rightarrow> None
      | c # r \<Rightarrow>
          if c \<noteq> 91 then None
          else (case dropWhile not_bracket r of
                  [] \<Rightarrow> None
                | d # _ \<Rightarrow>
                    if takeWhile not_bracket r \<noteq> [] \<and> d = 93
                    then Some (takeWhile not_bracket r) else None))"

record rmatch =
  m_start :: nat
  m_end :: nat
  m_group1 :: ustr

text \<open>
  \<open>TAG_PATTERN.finditer\<close>: the leftmost match from the cursor on, then again from the end
  of that match.  \<open>pos\<close> is the offset of the suffix \<open>s\<close> in the scanned string.
\<close>

function finditer_from :: "nat \<Rightarrow> ustr \<Rightarrow> rmatch list" where
  "finditer_from pos s =
     (if s = [] then []
      else (case tag_match s of
              None \<Rightarrow> finditer_from (Suc pos) (tl s)
            | Some body \<Rightarrow>
                \<lparr>m_start = pos, m_end = pos + length body + 2, m_group1 = body\<rparr>
                  # finditer_from (pos + length body + 2) (drop (length body + 2) s)))"
  by pat_completeness auto
termination
  by (relation "measure (\<lambda>(pos, s). length s)") auto

declare finditer_from.simps [simp del]

definition finditer :: "ustr \<Rightarrow> rmatch list" where
  "finditer s = finditer_from 0 s"

text \<open>\<open>TAG_PATTERN.findall\<close>: with one group, the list of group 1 of every match.\<close>

definition findall :: "ustr \<Rightarrow> ustr list" where
  "findall s = map m_group1 (finditer s)"

section \<open>Tag extraction and the inline stream\<close>

record tag =
  tag_idx :: nat
  tag_text :: ustr
  tag_start :: nat
  tag_end :: nat

text \<open>The loop over \<open>enumerate(TAG_PATTERN.finditer(tagged_text), start=1)\<close>.\<close>

fun enumerate_tags :: "nat \<Rightarrow> rmatch list \<Rightarrow> tag list" where
  "enumerate_tags i [] = []"
| "enumerate_tags i (m # ms) =
     \<lparr>tag_idx = i, tag_text = strip (m_group1 m), tag_start = m_start m, tag_end = m_end m\<rparr>
       # enumerate_tags (Suc i) ms"

definition extract_tags :: "pyval \<Rightarrow> tag list" where
  "extract_tags tagged_text =
     (case tagged_text of
        PyStr s \<Rightarrow> if strip s = [] then [] else enumerate_tags 1 (finditer s)
      | _ \<Rightarrow> [])"

text \<open>
  A stream segment: \<open>{"kind": "text", "text": ...}\<close> or
  \<open>{"kind": "tag", "text": ..., "idx": ...}\<close>.
\<close>

datatype segment = TextSeg ustr | TagSeg ustr nat

fun seg_content :: "segment \<Rightarrow> ustr" where
  "seg_content (TextSeg t) = t"
| "seg_content (TagSeg t i) = t"

text \<open>
  The loop of \<open>build_inline_stream\<close> with its cursor \<open>last\<close> (here \<open>last_end\<close>), followed by the trailing
  text segment.
\<close>

fun stream_loop :: "ustr \<Rightarrow> nat \<Rightarrow> tag list \<Rightarrow> segment list" where
  "stream_loop s last_end [] =
     (if last_end < length s then [TextSeg (drop last_end s)] else [])"
| "stream_loop s last_end (t # ts) =
     (if tag_start t > last_end then [TextSeg (slice s last_end (tag_start t))] else [])
       @ TagSeg (tag_text t) (tag_idx t) # stream_loop s (tag_end t) ts"

definition build_inline_stream :: "pyval \<Rightarrow> segment list" where
  "build_inline_stream tagged_text =
     (let s = (case tagged_text of PyStr s \<Rightarrow> s | _ \<Rightarrow> []);
          tags = extract_tags (PyStr s)
      in if tags = [] then [TextSeg s] else stream_loop s 0 tags)"

definition count_tags_in_text :: "pyval \<Rightarrow> nat" where
  "count_tags_in_text tagged_text =
     (case tagged_text of PyStr s \<Rightarrow> length (findall s) | _ \<Rightarrow> 0)"

section \<open>What the specification calls a tag span\<close>

text \<open>
  A complete, non-nested bracket span of \<open>s\<close> from offset \<open>p\<close> to offset \<open>q\<close>
  (exclusive): an opening bracket at \<open>p\<close>, a closing bracket at \<open>q - 1\<close>, and between
  them one or more characters none of which is a bracket.
\<close>

definition is_tag_span :: "ustr \<Rightarrow> nat \<Rightarrow> nat \<Rightarrow> bool" where
  "is_tag_span s p q =
     (p + 3 \<le> q \<and> q \<le> length s \<and> s ! p = 91 \<and> s ! (q - 1) = 93 \<and>
      list_all not_bracket (slice s (p + 1) (q - 1)))"

section \<open>The stream as the specification words it\<close>

text \<open>
  The specification describes the stream by the gaps between tags: before each tag the
  gap from the previous tag's end (or the start of the string) to the tag's start, after
  the last tag the gap to the end of the string; a gap becomes a text segment when it is
  not empty and is left out when it is empty.
\<close>

definition gap_segment :: "ustr \<Rightarrow> segment list" where
  "gap_segment g = (if g = [] then [] else [TextSeg g])"

fun spec_stream :: "ustr \<Rightarrow> nat \<Rightarrow> tag list \<Rightarrow> segment list" where
  "spec_stream s c [] = gap_segment (slice s c (length s))"
| "spec_stream s c (t # ts) =
     gap_segment (slice s c (tag_start t))
       @ TagSeg (tag_text t) (tag_idx t) # spec_stream s (tag_end t) ts"

fun is_tag_segment :: "segment \<Rightarrow> bool" where
  "is_tag_segment (TextSeg t) = False"
| "is_tag_segment (TagSeg t i) = True"

text \<open>
  The part of the source string a segment stands for: a text segment stands for its own
  content, a tag segment for the bracketed span \<open>s[start:end]\<close> of the extracted tag that
  carries the segment's index.
\<close>

fun seg_source :: "ustr \<Rightarrow> tag list \<Rightarrow> segment \<Rightarrow> ustr" where
  "seg_source s tags (TextSeg t) = t"
| "seg_source s tags (TagSeg t i) =
     (case filter (\<lambda>g. tag_idx g = i) tags of
        [] \<Rightarrow> []
      | g # _ \<Rightarrow> slice s (tag_start g) (tag_end g))"

section \<open>Username sanitizer\<close>

text \<open>The character class \<open>[A-Za-z0-9._-]\<close> of \<open>sanitize_username\<close>.\<close>

definition safe_char :: "nat \<Rightarrow> bool" where
  "safe_char c =
     ((65 \<le> c \<and> c \<le> 90) \<or> (97 \<le> c \<and> c \<le> 122) \<or> (48 \<le> c \<and> c \<le> 57) \<or>
      c = 46 \<or> c = 95 \<or> c = 45)"

text \<open>
  \<open>safe = re.sub(r"[^A-Za-z0-9._-]", "_", name.strip()); return safe or "annotator"\<close>.
\<close>

definition sanitize_username :: "ustr \<Rightarrow> ustr" where
  "sanitize_username name =
     (let safe = map (\<lambda>c. if safe_char c then c else 95) (strip name)
      in if safe = [] then ustr ''annotator'' else safe)"

section \<open>Row adapter\<close>

text \<open>
  A dataset row (\<open>DF.iloc[i]\<close>) maps column names to cell values; \<open>df_row.get(key, default)\<close>
  is the cell, or the default when the row has no such column.  The key is \<open>None\<close> when no
  model is known.
\<close>

type_synonym row = "ustr \<rightharpoonup> pyval"

definition row_get :: "row \<Rightarrow> ustr option \<Rightarrow> pyval \<Rightarrow> pyval" where
  "row_get df_row key dflt =
     (case key of
        None \<Rightarrow> dflt
      | Some k \<Rightarrow> (case df_row k of None \<Rightarrow> dflt | Some v \<Rightarrow> v))"

text \<open>
  The expression of \<open>index\<close> and \<open>annotate\<close> that picks the tagged text:
  \<open>df_row.get(model) or df_row.get("gpt4o_layer2_annotations") or
  df_row.get("English Translation") or ""\<close>.
\<close>

definition tagged_text_for :: "row \<Rightarrow> ustr option \<Rightarrow> pyval" where
  "tagged_text_for df_row model =
     py_or (py_or (py_or (row_get df_row model PyNone)
                         (row_get df_row (Some (ustr ''gpt4o_layer2_annotations'')) PyNone))
                  (row_get df_row (Some (ustr ''English Translation'')) PyNone))
           (PyStr [])"

section \<open>The saved record\<close>

text \<open>\<open>str(n)\<close> for a non-negative integer, as the f-strings of the source format it.\<close>

function str_nat :: "nat \<Rightarrow> ustr" where
  "str_nat n = (if n < 10 then [48 + n] else str_nat (n div 10) @ [48 + n mod 10])"
  by pat_completeness auto
termination
  by (relation "measure (\<lambda>n. n)") auto

declare str_nat.simps [simp del]

record item =
  item_tag_index :: nat
  item_tag_text :: ustr
  item_decision :: "ustr option"

text \<open>
  The loop of \<open>build_payload_inline\<close> over the tags: the decision is whatever the form
  holds under the key \<open>dec_tag_<idx>\<close>, or \<open>None\<close>.
\<close>

fun payload_items :: "(ustr \<rightharpoonup> ustr) \<Rightarrow> tag list \<Rightarrow> item list" where
  "payload_items form_data [] = []"
| "payload_items form_data (t # ts) =
     \<lparr>item_tag_index = tag_idx t, item_tag_text = tag_text t,
      item_decision = form_data (ustr ''dec_tag_'' @ str_nat (tag_idx t))\<rparr>
       # payload_items form_data ts"

text \<open>
  \<open>_safe_int(x, None)\<close>: \<open>int(x)\<close>, or \<open>None\<close> when that raises.  \<open>int\<close> of a string is Python's
  integer parser, taken as the parameter \<open>parse_int\<close>.
\<close>

definition safe_int :: "(ustr \<Rightarrow> int option) \<Rightarrow> pyval \<Rightarrow> int option" where
  "safe_int parse_int x =
     (case x of PyInt n \<Rightarrow> Some n | PyStr s \<Rightarrow> parse_int s | _ \<Rightarrow> None)"

record payload =
  p_annotator :: "ustr option"
  p_model :: "ustr option"
  p_row_index :: "int option"
  p_transcript_no :: "int option"
  p_title :: pyval
  p_stance :: pyval
  p_items :: "item list"
  p_notes :: ustr
  p_saved_at :: ustr

text \<open>\<open>saved_at\<close> is the clock reading \<open>datetime.utcnow().isoformat() + "Z"\<close>, a parameter here.\<close>

definition build_payload_inline ::
  "(ustr \<Rightarrow> int option) \<Rightarrow> ustr \<Rightarrow> ustr option \<Rightarrow> ustr option \<Rightarrow> nat \<Rightarrow> pyval \<Rightarrow> row \<Rightarrow>
     tag list \<Rightarrow> (ustr \<rightharpoonup> ustr) \<Rightarrow> ustr \<Rightarrow> payload" where
  "build_payload_inline parse_int now username model row_index transcript_no df_row tags
       form_data notes =
     \<lparr>p_annotator = username, p_model = model,
      p_row_index = safe_int parse_int (PyInt (int row_index)),
      p_transcript_no = safe_int parse_int transcript_no,
      p_title = row_get df_row (Some (ustr ''Title'')) PyNone,
      p_stance = row_get df_row (Some (ustr ''Stance'')) PyNone,
      p_items = payload_items form_data tags,
      p_notes = notes,
      p_saved_at = now\<rparr>"

text \<open>What the specification allows as a decision: agree, disagree, or unset.\<close>

definition valid_decision :: "ustr option \<Rightarrow> bool" where
  "valid_decision d = (d = Some (ustr ''agree'') \<or> d = Some (ustr ''disagree'') \<or> d = None)"

(*LEMMAS*)
section \<open>The scan finds exactly the tag spans\<close>

lemma tag_match_SomeD:
  assumes "tag_match s = Some body"
  shows "body \<noteq> [] \<and> (\<forall>c \<in> set body. not_bracket c) \<and> (\<exists>rest. s = 91 # body @ 93 # rest)"
proof -
  from assms obtain r where s: "s = 91 # r"
    by (auto simp: tag_match_def split: list.splits if_splits)
  from assms s obtain d rest where dw: "dropWhile not_bracket r = d # rest"
    by (auto simp: tag_match_def split: list.splits if_splits)
  from assms s dw have b: "body = takeWhile not_bracket r" and ne: "body \<noteq> []" and d: "d = 93"
    by (auto simp: tag_match_def split: if_splits)
  have "r = takeWhile not_bracket r @ dropWhile not_bracket r" by simp
  with dw b d have "r = body @ 93 # rest" by simp
  moreover have "\<forall>c \<in> set body. not_bracket c" using b by (auto dest: set_takeWhileD)
  ultimately show ?thesis using s ne by simp
qed

lemma tag_match_SomeI:
  assumes "body \<noteq> []" "\<forall>c \<in> set body. not_bracket c"
  shows "tag_match (91 # body @ 93 # rest) = Some body"
proof -
  have nb: "\<not> not_bracket 93" by (simp add: not_bracket_def)
  have t: "takeWhile not_bracket (body @ 93 # rest) = body"
    using assms(2) nb by (simp add: takeWhile_append2)
  have d: "dropWhile not_bracket (body @ 93 # rest) = 93 # rest"
    using assms(2) nb by (simp add: dropWhile_append2)
  show ?thesis using assms(1) by (simp add: tag_match_def t d)
qed

lemma is_tag_span_decomp:
  "is_tag_span s p q \<longleftrightarrow>
     (\<exists>pre body rest. s = pre @ 91 # body @ 93 # rest \<and> length pre = p \<and>
        q = p + length body + 2 \<and> body \<noteq> [] \<and> (\<forall>c \<in> set body. not_bracket c))"
  (is "?L \<longleftrightarrow> ?R")
proof
  assume L: ?L
  then have pq: "p + 3 \<le> q" "q \<le> length s" and sp: "s ! p = 91" and sq: "s ! (q - 1) = 93"
    and mid: "list_all not_bracket (slice s (p + 1) (q - 1))"
    by (auto simp: is_tag_span_def)
  define pre where "pre = take p s"
  define body where "body = take (q - p - 2) (drop (p + 1) s)"
  define rest where "rest = drop q s"
  have lb: "length body = q - p - 2" using pq by (simp add: body_def)
  have "s = take p s @ drop p s" by simp
  also have "drop p s = s ! p # drop (p + 1) s"
    using pq by (simp add: Cons_nth_drop_Suc)
  also have "drop (p + 1) s = body @ drop (q - p - 2) (drop (p + 1) s)"
    by (simp only: body_def append_take_drop_id)
  also have "drop (q - p - 2) (drop (p + 1) s) = drop (q - 1) s"
  proof -
    have "q - p - 2 + (p + 1) = q - 1" using pq by arith
    then show ?thesis by (simp only: drop_drop)
  qed
  also have "drop (q - 1) s = s ! (q - 1) # drop q s"
    using pq Cons_nth_drop_Suc[of "q - 1" s] by simp
  finally have eq: "s = pre @ 91 # body @ 93 # rest"
    using sp sq by (simp add: pre_def rest_def)
  have "q - 1 - (p + 1) = q - p - 2" by arith
  then have "slice s (p + 1) (q - 1) = body" by (simp only: slice_def body_def)
  with mid have "\<forall>c \<in> set body. not_bracket c" by (simp add: list_all_iff)
  moreover have "length pre = p" using pq by (simp add: pre_def)
  moreover have "body \<noteq> []" using lb pq by auto
  moreover have "q = p + length body + 2" using lb pq by simp
  ultimately show ?R using eq by blast
next
  assume ?R
  then obtain pre body rest where eq: "s = pre @ 91 # body @ 93 # rest" and lp: "length pre = p"
    and q: "q = p + length body + 2" and ne: "body \<noteq> []" and nb: "\<forall>c \<in> set body. not_bracket c"
    by blast
  have 1: "p + 3 \<le> q" using q ne by (cases body) auto
  have 2: "q \<le> length s" using eq lp q by simp
  have 3: "s ! p = 91" using eq lp by (simp add: nth_append)
  have 4: "s ! (q - 1) = 93" using eq lp q by (simp add: nth_append nth_Cons')
  have "slice s (p + 1) (q - 1) = body" using eq lp q by (simp add: slice_def)
  then have 5: "list_all not_bracket (slice s (p + 1) (q - 1))"
    using nb by (simp add: list_all_iff)
  show ?L using 1 2 3 4 5 by (simp add: is_tag_span_def)
qed

lemma finditer_from_Nil [simp]: "finditer_from pos [] = []"
  by (simp add: finditer_from.simps)

lemma finditer_from_skip:
  "tag_match (c # r) = None \<Longrightarrow> finditer_from pos (c # r) = finditer_from (Suc pos) r"
  by (subst finditer_from.simps) simp

lemma finditer_from_hit:
  assumes "body \<noteq> []" "\<forall>c \<in> set body. not_bracket c"
  shows "finditer_from pos (91 # body @ 93 # rest) =
           \<lparr>m_start = pos, m_end = pos + length body + 2, m_group1 = body\<rparr>
             # finditer_from (pos + length body + 2) rest"
  using tag_match_SomeI[OF assms, of rest] by (subst finditer_from.simps) simp

lemma finditer_from_sound:
  "length pre = pos \<Longrightarrow> m \<in> set (finditer_from pos s) \<Longrightarrow>
     pos \<le> m_start m \<and> is_tag_span (pre @ s) (m_start m) (m_end m) \<and>
     m_group1 m = slice (pre @ s) (m_start m + 1) (m_end m - 1)"
proof (induction pos s arbitrary: pre rule: finditer_from.induct)
  case (1 pos s)
  show ?case
  proof (cases "s = []")
    case True
    with "1.prems" show ?thesis by simp
  next
    case ne: False
    show ?thesis
    proof (cases "tag_match s")
      case None
      from ne obtain c r where s: "s = c # r" by (cases s) auto
      from "1.prems"(2) None s have m: "m \<in> set (finditer_from (Suc pos) (tl s))"
        by (simp add: finditer_from_skip)
      have "length (pre @ [c]) = Suc pos" using "1.prems"(1) by simp
      from "1.IH"(1)[OF ne None this m] s show ?thesis by simp
    next
      case (Some body)
      from tag_match_SomeD[OF Some] obtain rest where
        b: "body \<noteq> []" "\<forall>c \<in> set body. not_bracket c" and s: "s = 91 # body @ 93 # rest"
        by blast
      have fi: "finditer_from pos s =
           \<lparr>m_start = pos, m_end = pos + length body + 2, m_group1 = body\<rparr>
             # finditer_from (pos + length body + 2) rest"
        unfolding s by (rule finditer_from_hit[OF b])
      have dr: "drop (length body + 2) s = rest" by (simp add: s)
      show ?thesis
      proof (cases "m = \<lparr>m_start = pos, m_end = pos + length body + 2, m_group1 = body\<rparr>")
        case True
        have "is_tag_span (pre @ s) pos (pos + length body + 2)"
          unfolding is_tag_span_decomp using b s "1.prems"(1) by blast
        moreover have "slice (pre @ s) (pos + 1) (pos + length body + 2 - 1) = body"
          using "1.prems"(1) by (simp add: slice_def s)
        ultimately show ?thesis using True by simp
      next
        case False
        with "1.prems"(2) fi have m: "m \<in> set (finditer_from (pos + length body + 2) rest)"
          by simp
        have l': "length (pre @ 91 # body @ [93]) = pos + length body + 2"
          using "1.prems"(1) by simp
        note IH = "1.IH"(2)[OF ne Some, unfolded dr]
        from IH[OF l' m] have
          "pos + length body + 2 \<le> m_start m \<and>
           is_tag_span ((pre @ 91 # body @ [93]) @ rest) (m_start m) (m_end m) \<and>
           m_group1 m = slice ((pre @ 91 # body @ [93]) @ rest) (m_start m + 1) (m_end m - 1)" .
        then show ?thesis by (simp add: s)
      qed
    qed
  qed
qed

lemma body_unique:
  assumes "\<forall>c \<in> set b1. not_bracket c" "\<forall>c \<in> set b2. not_bracket c"
    and "b1 @ 93 # r1 = b2 @ 93 # r2"
  shows "b1 = b2"
proof -
  have nb: "\<not> not_bracket 93" by (simp add: not_bracket_def)
  have "takeWhile not_bracket (b1 @ 93 # r1) = b1" using assms(1) nb by (simp add: takeWhile_append2)
  moreover have "takeWhile not_bracket (b2 @ 93 # r2) = b2" using assms(2) nb by (simp add: takeWhile_append2)
  ultimately show ?thesis using assms(3) by simp
qed

lemma finditer_from_complete:
  "length pre = pos \<Longrightarrow> pos \<le> p \<Longrightarrow> is_tag_span (pre @ s) p q \<Longrightarrow>
     \<exists>m \<in> set (finditer_from pos s). m_start m = p \<and> m_end m = q"
proof (induction pos s arbitrary: pre rule: finditer_from.induct)
  case (1 pos s)
  note len = "1.prems"(1) and le = "1.prems"(2) and span = "1.prems"(3)
  show ?case
  proof (cases "s = []")
    case True
    with span len le show ?thesis by (simp add: is_tag_span_def)
  next
    case ne: False
    from ne obtain c r where s: "s = c # r" by (cases s) auto
    from span obtain pre' body' rest' where
      dec: "pre @ s = pre' @ 91 # body' @ 93 # rest'" and lp: "length pre' = p"
      and q: "q = p + length body' + 2" and b': "body' \<noteq> []" "\<forall>c \<in> set body'. not_bracket c"
      unfolding is_tag_span_decomp by blast
    show ?thesis
    proof (cases "tag_match s")
      case None
      have "p \<noteq> pos"
      proof
        assume "p = pos"
        with dec lp len have "s = 91 # body' @ 93 # rest'" by simp
        with tag_match_SomeI[OF b', of rest'] None show False by simp
      qed
      with le have le': "Suc pos \<le> p" by simp
      have l': "length (pre @ [c]) = Suc pos" using len by simp
      have sp': "is_tag_span ((pre @ [c]) @ tl s) p q" using span s by simp
      from "1.IH"(1)[OF ne None l' le' sp'] None s show ?thesis
        by (simp add: finditer_from_skip)
    next
      case (Some body)
      from tag_match_SomeD[OF Some] obtain rest where
        b: "body \<noteq> []" "\<forall>c \<in> set body. not_bracket c" and sb: "s = 91 # body @ 93 # rest"
        by blast
      have fi: "finditer_from pos s =
           \<lparr>m_start = pos, m_end = pos + length body + 2, m_group1 = body\<rparr>
             # finditer_from (pos + length body + 2) rest"
        unfolding sb by (rule finditer_from_hit[OF b])
      have dr: "drop (length body + 2) s = rest" by (simp add: sb)
      consider "p = pos" | "pos < p" "p < pos + length body + 2" | "pos + length body + 2 \<le> p"
        using le by linarith
      then show ?thesis
      proof cases
        case 1
        with dec lp len sb have "body @ 93 # rest = body' @ 93 # rest'" by simp
        from body_unique[OF b(2) b'(2) this] have "body = body'" .
        with q 1 fi show ?thesis by simp
      next
        case 2
        have "(pre @ s) ! p = 91" using span by (simp add: is_tag_span_def)
        moreover have "(pre @ s) ! p = (body @ [93]) ! (p - pos - 1)"
          using 2 len by (simp add: sb nth_append nth_Cons')
        moreover have "p - pos - 1 < length (body @ [93])" using 2 by simp
        then have "(body @ [93]) ! (p - pos - 1) \<in> set (body @ [93])" by (rule nth_mem)
        ultimately have "91 \<in> set (body @ [93])" by simp
        with b(2) show ?thesis by (auto simp: not_bracket_def)
      next
        case 3
        have l': "length (pre @ 91 # body @ [93]) = pos + length body + 2" using len by simp
        have sp': "is_tag_span ((pre @ 91 # body @ [93]) @ rest) p q"
          using span by (simp add: sb)
        note IH = "1.IH"(2)[OF ne Some, unfolded dr]
        from IH[OF l' 3 sp'] fi show ?thesis by auto
      qed
    qed
  qed
qed

lemma is_tag_span_bounds: "is_tag_span s p q \<Longrightarrow> p + 3 \<le> q \<and> q \<le> length s"
  by (simp add: is_tag_span_def)

lemma finditer_from_bounds:
  assumes "m \<in> set (finditer_from pos s)"
  shows "pos \<le> m_start m \<and> m_start m + 3 \<le> m_end m \<and> m_end m \<le> pos + length s"
proof -
  have l: "length (replicate pos (0::nat)) = pos" by simp
  from finditer_from_sound[OF l assms] is_tag_span_bounds[of "replicate pos 0 @ s" "m_start m" "m_end m"]
  show ?thesis by simp
qed

lemma finditer_from_sorted:
  "sorted_wrt (\<lambda>a b. m_end a \<le> m_start b) (finditer_from pos s)"
proof (induction pos s rule: finditer_from.induct)
  case (1 pos s)
  show ?case
  proof (cases "s = []")
    case True
    then show ?thesis by simp
  next
    case ne: False
    from ne obtain c r where s: "s = c # r" by (cases s) auto
    show ?thesis
    proof (cases "tag_match s")
      case None
      with "1.IH"(1)[OF ne None] s show ?thesis by (simp add: finditer_from_skip)
    next
      case (Some body)
      from tag_match_SomeD[OF Some] obtain rest where
        b: "body \<noteq> []" "\<forall>c \<in> set body. not_bracket c" and sb: "s = 91 # body @ 93 # rest"
        by blast
      have fi: "finditer_from pos s =
           \<lparr>m_start = pos, m_end = pos + length body + 2, m_group1 = body\<rparr>
             # finditer_from (pos + length body + 2) rest"
        unfolding sb by (rule finditer_from_hit[OF b])
      have dr: "drop (length body + 2) s = rest" by (simp add: sb)
      note IH = "1.IH"(2)[OF ne Some, unfolded dr]
      have "\<forall>m \<in> set (finditer_from (pos + length body + 2) rest). pos + length body + 2 \<le> m_start m"
        using finditer_from_bounds by blast
      with IH show ?thesis by (simp add: fi)
    qed
  qed
qed

lemma finditer_from_no_open: "91 \<notin> set s \<Longrightarrow> finditer_from pos s = []"
proof (induction pos s rule: finditer_from.induct)
  case (1 pos s)
  show ?case
  proof (cases "s = []")
    case True
    then show ?thesis by simp
  next
    case ne: False
    from ne obtain c r where s: "s = c # r" by (cases s) auto
    have "tag_match s = None"
    proof (cases "tag_match s")
      case (Some body)
      from tag_match_SomeD[OF Some] "1.prems" show ?thesis by auto
    qed simp
    moreover have "91 \<notin> set (tl s)" using "1.prems" s by simp
    ultimately show ?thesis using "1.IH"(1)[OF ne] s by (simp add: finditer_from_skip)
  qed
qed

lemma strip_Nil_iff: "strip s = [] \<longleftrightarrow> (\<forall>c \<in> set s. isspace c)"
proof
  assume "strip s = []"
  then have "dropWhile isspace (rev (dropWhile isspace s)) = []" by (simp add: strip_def)
  then have a: "\<forall>c \<in> set (dropWhile isspace s). isspace c"
    by (simp add: dropWhile_eq_Nil_conv)
  have "dropWhile isspace s = []"
  proof (rule ccontr)
    assume ne: "dropWhile isspace s \<noteq> []"
    then have "\<not> isspace (hd (dropWhile isspace s))" by (rule hd_dropWhile)
    moreover have "hd (dropWhile isspace s) \<in> set (dropWhile isspace s)" using ne by simp
    ultimately show False using a by blast
  qed
  then show "\<forall>c \<in> set s. isspace c" by (simp add: dropWhile_eq_Nil_conv)
next
  assume "\<forall>c \<in> set s. isspace c"
  then show "strip s = []" by (auto simp: strip_def dest: set_dropWhileD)
qed

lemma strip_Nil_finditer: "strip s = [] \<Longrightarrow> finditer s = []"
proof -
  assume "strip s = []"
  then have "\<forall>c \<in> set s. isspace c" by (simp add: strip_Nil_iff)
  moreover have "\<not> isspace 91" by (simp add: isspace_def)
  ultimately have "91 \<notin> set s" by blast
  then show ?thesis by (simp add: finditer_def finditer_from_no_open)
qed

lemma extract_tags_str: "extract_tags (PyStr s) = enumerate_tags 1 (finditer s)"
  by (simp add: extract_tags_def strip_Nil_finditer)

lemma length_enumerate_tags: "length (enumerate_tags i ms) = length ms"
  by (induction ms arbitrary: i) auto

lemma nth_enumerate_tags:
  "k < length ms \<Longrightarrow> enumerate_tags i ms ! k =
     \<lparr>tag_idx = i + k, tag_text = strip (m_group1 (ms ! k)),
      tag_start = m_start (ms ! k), tag_end = m_end (ms ! k)\<rparr>"
proof (induction ms arbitrary: i k)
  case Nil
  then show ?case by simp
next
  case (Cons m ms)
  show ?case
  proof (cases k)
    case 0
    then show ?thesis by simp
  next
    case (Suc j)
    with Cons.prems have "j < length ms" by simp
    from Cons.IH[OF this, of "Suc i"] Suc show ?thesis by simp
  qed
qed

lemma enumerate_tags_spans:
  "map (\<lambda>t. (tag_start t, tag_end t)) (enumerate_tags i ms) = map (\<lambda>m. (m_start m, m_end m)) ms"
  by (induction ms arbitrary: i) auto

lemma finditer_spans:
  "(\<exists>m \<in> set (finditer s). m_start m = p \<and> m_end m = q) \<longleftrightarrow> is_tag_span s p q"
proof
  assume "\<exists>m \<in> set (finditer s). m_start m = p \<and> m_end m = q"
  then obtain m where m: "m \<in> set (finditer_from 0 s)" "m_start m = p" "m_end m = q"
    by (auto simp: finditer_def)
  from finditer_from_sound[of "[]" 0 m s] m show "is_tag_span s p q" by simp
next
  assume "is_tag_span s p q"
  from finditer_from_complete[of "[]" 0 p s q] this
  show "\<exists>m \<in> set (finditer s). m_start m = p \<and> m_end m = q" by (simp add: finditer_def)
qed

lemma extract_tags_spans:
  "(\<exists>t \<in> set (extract_tags (PyStr s)). tag_start t = p \<and> tag_end t = q) \<longleftrightarrow> is_tag_span s p q"
proof -
  have "(\<exists>t \<in> set (extract_tags (PyStr s)). tag_start t = p \<and> tag_end t = q)
      \<longleftrightarrow> (p, q) \<in> set (map (\<lambda>t. (tag_start t, tag_end t)) (extract_tags (PyStr s)))"
    by auto
  also have "\<dots> \<longleftrightarrow> (p, q) \<in> set (map (\<lambda>m. (m_start m, m_end m)) (finditer s))"
    by (simp only: extract_tags_str enumerate_tags_spans)
  also have "\<dots> \<longleftrightarrow> (\<exists>m \<in> set (finditer s). m_start m = p \<and> m_end m = q)"
    by auto
  finally show ?thesis by (simp only: finditer_spans)
qed

lemma extract_tags_sorted:
  "sorted_wrt (\<lambda>a b. tag_end a \<le> tag_start b) (extract_tags (PyStr s))"
proof -
  have "sorted_wrt (\<lambda>a b. snd a \<le> fst b) (map (\<lambda>m. (m_start m, m_end m)) (finditer s))"
    using finditer_from_sorted[of 0 s] by (simp add: sorted_wrt_map finditer_def)
  then have "sorted_wrt (\<lambda>a b. snd a \<le> fst b)
       (map (\<lambda>t. (tag_start t, tag_end t)) (extract_tags (PyStr s)))"
    by (simp only: extract_tags_str enumerate_tags_spans)
  then show ?thesis by (simp add: sorted_wrt_map)
qed

lemma extract_tags_nth:
  assumes "k < length (extract_tags (PyStr s))"
  shows "tag_idx (extract_tags (PyStr s) ! k) = k + 1 \<and>
         tag_text (extract_tags (PyStr s) ! k) =
           strip (slice s (tag_start (extract_tags (PyStr s) ! k) + 1)
                          (tag_end (extract_tags (PyStr s) ! k) - 1))"
proof -
  from assms have k: "k < length (finditer s)"
    by (simp add: extract_tags_str length_enumerate_tags)
  then have "finditer_from 0 s ! k \<in> set (finditer_from 0 s)" by (simp add: finditer_def)
  from finditer_from_sound[of "[]" 0 _ s, OF _ this]
  have "m_group1 (finditer s ! k) = slice s (m_start (finditer s ! k) + 1) (m_end (finditer s ! k) - 1)"
    by (simp add: finditer_def)
  then show ?thesis by (simp add: extract_tags_str nth_enumerate_tags[OF k])
qed

lemma finditer_distinct_spans:
  "distinct (map (\<lambda>m. (m_start m, m_end m)) (finditer s))"
proof -
  have b: "\<forall>m \<in> set (finditer s). m_start m < m_end m"
    using finditer_from_bounds[of _ 0 s] by (fastforce simp: finditer_def)
  have "sorted_wrt (\<lambda>a b. m_end a \<le> m_start b \<and> m_start a < m_end a) (finditer s)"
    using finditer_from_sorted[of 0 s] b
    by (simp add: finditer_def sorted_wrt_iff_nth_less)
  then have "sorted_wrt (\<lambda>a b. m_start a < m_start b) (finditer s)"
    by (rule sorted_wrt_mono_rel[rotated]) auto
  then have "sorted_wrt (<) (map m_start (finditer s))" by (simp add: sorted_wrt_map)
  then have "distinct (map m_start (finditer s))" by (simp add: strict_sorted_iff)
  then have "distinct (map fst (map (\<lambda>m. (m_start m, m_end m)) (finditer s)))"
    by (simp add: comp_def)
  then show ?thesis by (simp only: distinct_map)
qed

lemma length_finditer_card: "length (finditer s) = card {(p, q). is_tag_span s p q}"
proof -
  have "set (map (\<lambda>m. (m_start m, m_end m)) (finditer s)) = {(p, q). is_tag_span s p q}"
    using finditer_spans[of s] by force
  then have "card {(p, q). is_tag_span s p q} = length (map (\<lambda>m. (m_start m, m_end m)) (finditer s))"
    using distinct_card[OF finditer_distinct_spans[of s]] by simp
  then show ?thesis by simp
qed

section \<open>Claims about the tag tokenizer\<close>

text \<open>
  Claim C2.  For every input string, \<open>extract_tags\<close> recognises exactly the complete
  non-nested bracket spans: a pair of offsets is the start and end of an extracted tag if
  and only if it is a tag span of the input.  The tags come in scan order, left to right
  and without overlap; the tag at position \<open>k\<close> (from 0) carries the index \<open>k + 1\<close> and
  its text is the bracket interior with surrounding whitespace trimmed.  When the input
  has no tag span the result is the empty list.  The function has no failing branch: it
  returns a list for every string, and the empty list for a value that is not a string.
\<close>

theorem extract_tags_spec:
  "(\<forall>p q. (\<exists>t \<in> set (extract_tags (PyStr s)). tag_start t = p \<and> tag_end t = q)
            \<longleftrightarrow> is_tag_span s p q) \<and>
   sorted_wrt (\<lambda>a b. tag_end a \<le> tag_start b) (extract_tags (PyStr s)) \<and>
   (\<forall>k < length (extract_tags (PyStr s)).
      tag_idx (extract_tags (PyStr s) ! k) = k + 1 \<and>
      tag_text (extract_tags (PyStr s) ! k) =
        strip (slice s (tag_start (extract_tags (PyStr s) ! k) + 1)
                       (tag_end (extract_tags (PyStr s) ! k) - 1))) \<and>
   ((\<forall>p q. \<not> is_tag_span s p q) \<longrightarrow> extract_tags (PyStr s) = []) \<and>
   extract_tags PyNone = [] \<and> extract_tags PyNaN = [] \<and> extract_tags (PyInt n) = []"
proof -
  have e: "(\<forall>p q. \<not> is_tag_span s p q) \<longrightarrow> extract_tags (PyStr s) = []"
  proof
    assume no: "\<forall>p q. \<not> is_tag_span s p q"
    show "extract_tags (PyStr s) = []"
    proof (cases "extract_tags (PyStr s)")
      case (Cons t ts)
      then have "\<exists>u \<in> set (extract_tags (PyStr s)). tag_start u = tag_start t \<and> tag_end u = tag_end t"
        by auto
      with no show ?thesis by (simp only: extract_tags_spans)
    qed simp
  qed
  have n: "extract_tags PyNone = [] \<and> extract_tags PyNaN = [] \<and> extract_tags (PyInt n) = []"
    by (simp add: extract_tags_def)
  show ?thesis using extract_tags_spans extract_tags_sorted extract_tags_nth e n by blast
qed

theorem extract_tags_spec_witness:
  "is_tag_span (ustr ''a[ b ]c'') 1 6 \<and>
   tag_idx (extract_tags (PyStr (ustr ''a[ b ]c'')) ! 0) = 1 \<and>
   tag_text (extract_tags (PyStr (ustr ''a[ b ]c'')) ! 0) = ustr ''b'' \<and>
   extract_tags (PyStr (ustr ''[]'')) = []"
proof -
  have e: "extract_tags (PyStr (ustr ''a[ b ]c'')) =
             [\<lparr>tag_idx = 1, tag_text = ustr ''b'', tag_start = 1, tag_end = 6\<rparr>]"
    by (simp add: extract_tags_def finditer_def finditer_from.simps tag_match_def strip_def
        isspace_def not_bracket_def ustr_def)
  have no: "\<forall>p q. \<not> is_tag_span (ustr ''[]'') p q"
    by (simp add: is_tag_span_def ustr_def)
  have k: "0 < length (extract_tags (PyStr (ustr ''a[ b ]c'')))" by (simp add: e)
  have t: "\<exists>t \<in> set (extract_tags (PyStr (ustr ''a[ b ]c''))). tag_start t = 1 \<and> tag_end t = 6"
    by (simp add: e)
  from extract_tags_spec[of "ustr ''a[ b ]c''"] t have "is_tag_span (ustr ''a[ b ]c'') 1 6"
    by blast
  moreover from extract_tags_spec[of "ustr ''[]''"] no have "extract_tags (PyStr (ustr ''[]'')) = []"
    by blast
  moreover from extract_tags_spec[of "ustr ''a[ b ]c''"] k
  have "tag_idx (extract_tags (PyStr (ustr ''a[ b ]c'')) ! 0) = 0 + 1"
    by blast
  moreover have "tag_text (extract_tags (PyStr (ustr ''a[ b ]c'')) ! 0) = ustr ''b''"
    by (simp add: e)
  ultimately show ?thesis by simp
qed

text \<open>
  Claim C3.  For every string the number of extracted tags equals the number of
  non-nested bracket pairs (tag spans) of the string, and for every value the number of
  extracted tags equals \<open>count_tags_in_text\<close>: the count used for saved items and the count
  used for the progress summary agree.
\<close>

theorem tag_count_agrees:
  "length (extract_tags (PyStr s)) = card {(p, q). is_tag_span s p q} \<and>
   length (extract_tags v) = count_tags_in_text v"
proof -
  have "length (extract_tags v) = count_tags_in_text v"
  proof (cases v)
    case (PyStr x)
    then show ?thesis
      by (simp add: extract_tags_str length_enumerate_tags count_tags_in_text_def findall_def)
  qed (simp_all add: count_tags_in_text_def extract_tags_def)
  then show ?thesis by (simp add: extract_tags_str length_enumerate_tags length_finditer_card)
qed

theorem tag_count_agrees_witness:
  "card {(p, q). is_tag_span (ustr ''a[ b ]c'') p q} = 1 \<and>
   count_tags_in_text (PyStr (ustr ''a[ b ]c'')) = 1"
proof -
  have e: "extract_tags (PyStr (ustr ''a[ b ]c'')) =
             [\<lparr>tag_idx = 1, tag_text = ustr ''b'', tag_start = 1, tag_end = 6\<rparr>]"
    by (simp add: extract_tags_def finditer_def finditer_from.simps tag_match_def strip_def
        isspace_def not_bracket_def ustr_def)
  from tag_count_agrees[of "ustr ''a[ b ]c''" "PyStr (ustr ''a[ b ]c'')"] show ?thesis
    by (simp add: e)
qed

section \<open>The stream builder\<close>

lemma extract_tags_bounds:
  assumes "t \<in> set (extract_tags (PyStr s))"
  shows "tag_start t + 3 \<le> tag_end t \<and> tag_end t \<le> length s"
proof -
  from assms have "\<exists>u \<in> set (extract_tags (PyStr s)). tag_start u = tag_start t \<and> tag_end u = tag_end t"
    by blast
  then have "is_tag_span s (tag_start t) (tag_end t)" by (simp only: extract_tags_spans)
  then show ?thesis by (rule is_tag_span_bounds)
qed

lemma slice_Nil_iff: "slice s c b = [] \<longleftrightarrow> \<not> (c < b \<and> c < length s)"
  by (auto simp: slice_def)

lemma slice_to_end: "slice s c (length s) = drop c s"
  by (simp add: slice_def)

lemma stream_loop_spec:
  "\<forall>t \<in> set ts. tag_start t < length s \<Longrightarrow> stream_loop s c ts = spec_stream s c ts"
proof (induction ts arbitrary: c)
  case Nil
  show ?case by (simp add: gap_segment_def slice_to_end)
next
  case (Cons t ts)
  have "tag_start t < length s" using Cons.prems by simp
  then have "(slice s c (tag_start t) = []) = (\<not> c < tag_start t)"
    by (auto simp: slice_Nil_iff)
  moreover have "stream_loop s (tag_end t) ts = spec_stream s (tag_end t) ts"
    using Cons.IH Cons.prems by simp
  ultimately show ?case by (simp add: gap_segment_def)
qed

lemma spec_stream_no_empty_text: "TextSeg [] \<notin> set (spec_stream s c ts)"
  by (induction ts arbitrary: c) (auto simp: gap_segment_def)

lemma spec_stream_tag_segments:
  "filter is_tag_segment (spec_stream s c ts) = map (\<lambda>t. TagSeg (tag_text t) (tag_idx t)) ts"
  by (induction ts arbitrary: c) (auto simp: gap_segment_def)

lemma build_inline_stream_str:
  "build_inline_stream (PyStr s) =
     (if extract_tags (PyStr s) = [] then [TextSeg s] else spec_stream s 0 (extract_tags (PyStr s)))"
proof -
  have "\<forall>t \<in> set (extract_tags (PyStr s)). tag_start t < length s"
    using extract_tags_bounds by fastforce
  then show ?thesis by (simp add: build_inline_stream_def Let_def stream_loop_spec)
qed

lemma enumerate_tags_idx: "map tag_idx (enumerate_tags i ms) = [i ..< i + length ms]"
proof (induction ms arbitrary: i)
  case Nil
  show ?case by simp
next
  case (Cons m ms)
  have "[i ..< i + length (m # ms)] = i # [Suc i ..< Suc i + length ms]"
    by (simp add: upt_rec)
  with Cons.IH[of "Suc i"] show ?case by simp
qed

lemma extract_tags_idx:
  "map tag_idx (extract_tags (PyStr s)) = [1 ..< Suc (length (extract_tags (PyStr s)))]"
  by (simp add: extract_tags_str enumerate_tags_idx length_enumerate_tags)

lemma slice_append_drop: "c \<le> a \<Longrightarrow> slice s c a @ drop a s = drop c s"
proof -
  assume "c \<le> a"
  then have "drop a s = drop (a - c) (drop c s)" by simp
  then show ?thesis by (simp only: slice_def append_take_drop_id)
qed

lemma concat_gap_segment: "concat (map (seg_source s tags) (gap_segment g)) = g"
  by (simp add: gap_segment_def)

lemma filter_distinct_key:
  "distinct (map f xs) \<Longrightarrow> x \<in> set xs \<Longrightarrow> filter (\<lambda>y. f y = f x) xs = [x]"
proof (induction xs)
  case Nil
  then show ?case by simp
next
  case (Cons g gs)
  from Cons.prems(1) have d: "f g \<notin> f ` set gs" "distinct (map f gs)" by auto
  show ?case
  proof (cases "x = g")
    case True
    have "\<forall>y \<in> set gs. f y \<noteq> f g"
    proof
      fix y assume "y \<in> set gs"
      then have "f y \<in> f ` set gs" by (rule imageI)
      with d(1) show "f y \<noteq> f g" by auto
    qed
    then have "filter (\<lambda>y. f y = f g) gs = []" by (simp add: filter_empty_conv)
    with True show ?thesis by simp
  next
    case False
    with Cons.prems(2) have x: "x \<in> set gs" by simp
    then have "f g \<noteq> f x" using d(1) by auto
    with Cons.IH[OF d(2) x] show ?thesis by simp
  qed
qed

lemma spec_stream_source:
  assumes "distinct (map tag_idx tags)" "set ts \<subseteq> set tags"
    and "sorted_wrt (\<lambda>a b. tag_end a \<le> tag_start b) ts"
    and "\<forall>t \<in> set ts. c \<le> tag_start t \<and> tag_start t \<le> tag_end t"
  shows "concat (map (seg_source s tags) (spec_stream s c ts)) = drop c s"
  using assms(2-)
proof (induction ts arbitrary: c)
  case Nil
  show ?case by (simp add: concat_gap_segment slice_to_end)
next
  case (Cons t ts)
  have t: "t \<in> set tags" using Cons.prems(1) by simp
  have lk: "filter (\<lambda>g. tag_idx g = tag_idx t) tags = [t]"
    by (rule filter_distinct_key[OF assms(1) t])
  have b: "c \<le> tag_start t" "tag_start t \<le> tag_end t" using Cons.prems(3) by auto
  have rest: "concat (map (seg_source s tags) (spec_stream s (tag_end t) ts)) = drop (tag_end t) s"
  proof (rule Cons.IH)
    show "set ts \<subseteq> set tags" using Cons.prems(1) by simp
    show "sorted_wrt (\<lambda>a b. tag_end a \<le> tag_start b) ts" using Cons.prems(2) by simp
    show "\<forall>u \<in> set ts. tag_end t \<le> tag_start u \<and> tag_start u \<le> tag_end u"
      using Cons.prems(2,3) by auto
  qed
  have "concat (map (seg_source s tags) (spec_stream s c (t # ts))) =
          slice s c (tag_start t) @ slice s (tag_start t) (tag_end t) @ drop (tag_end t) s"
    by (simp add: concat_gap_segment lk rest)
  also have "\<dots> = slice s c (tag_start t) @ drop (tag_start t) s"
    by (simp only: slice_append_drop[OF b(2)])
  also have "\<dots> = drop c s" by (rule slice_append_drop[OF b(1)])
  finally show ?case .
qed

section \<open>Claims about the stream builder\<close>

text \<open>
  Claim C4.  For every string: when no tag is extracted the stream is the single text
  segment holding the whole (possibly empty) string.  Otherwise the stream is the
  alternation the specification describes: before each tag its gap, then the tag segment,
  after the last tag the trailing gap, where a gap gives a text segment exactly when it is
  not empty; so no empty text segment occurs, and the tag segments, in order, carry the
  text and the 1-based index of the extracted tags.
\<close>

theorem build_inline_stream_shape:
  "(extract_tags (PyStr s) = [] \<longrightarrow> build_inline_stream (PyStr s) = [TextSeg s]) \<and>
   (extract_tags (PyStr s) \<noteq> [] \<longrightarrow>
      build_inline_stream (PyStr s) = spec_stream s 0 (extract_tags (PyStr s)) \<and>
      TextSeg [] \<notin> set (build_inline_stream (PyStr s)) \<and>
      filter is_tag_segment (build_inline_stream (PyStr s)) =
        map (\<lambda>t. TagSeg (tag_text t) (tag_idx t)) (extract_tags (PyStr s)) \<and>
      map tag_idx (extract_tags (PyStr s)) = [1 ..< Suc (length (extract_tags (PyStr s)))])"
  using extract_tags_idx[of s]
  by (simp add: build_inline_stream_str spec_stream_no_empty_text spec_stream_tag_segments)

theorem build_inline_stream_shape_witness:
  "build_inline_stream (PyStr (ustr ''[A] mid [B]'')) =
     [TagSeg (ustr ''A'') 1, TextSeg (ustr '' mid ''), TagSeg (ustr ''B'') 2] \<and>
   build_inline_stream (PyStr (ustr ''no tag'')) = [TextSeg (ustr ''no tag'')]"
proof -
  have e: "extract_tags (PyStr (ustr ''[A] mid [B]'')) =
    [\<lparr>tag_idx = 1, tag_text = ustr ''A'', tag_start = 0, tag_end = 3\<rparr>,
     \<lparr>tag_idx = 2, tag_text = ustr ''B'', tag_start = 8, tag_end = 11\<rparr>]"
    by (simp add: extract_tags_def finditer_def finditer_from.simps tag_match_def strip_def
        isspace_def not_bracket_def ustr_def)
  have n: "extract_tags (PyStr (ustr ''no tag'')) = []"
    by (simp add: extract_tags_def finditer_def finditer_from.simps tag_match_def strip_def
        isspace_def not_bracket_def ustr_def)
  have ne: "extract_tags (PyStr (ustr ''[A] mid [B]'')) \<noteq> []" by (simp add: e)
  from build_inline_stream_shape[of "ustr ''[A] mid [B]''"] ne
  have "build_inline_stream (PyStr (ustr ''[A] mid [B]'')) =
          spec_stream (ustr ''[A] mid [B]'') 0 (extract_tags (PyStr (ustr ''[A] mid [B]'')))"
    by blast
  then have 1: "build_inline_stream (PyStr (ustr ''[A] mid [B]'')) =
     [TagSeg (ustr ''A'') 1, TextSeg (ustr '' mid ''), TagSeg (ustr ''B'') 2]"
    unfolding e by (simp add: gap_segment_def slice_def ustr_def)
  from build_inline_stream_shape[of "ustr ''no tag''"] n
  have 2: "build_inline_stream (PyStr (ustr ''no tag'')) = [TextSeg (ustr ''no tag'')]"
    by blast
  from 1 2 show ?thesis by simp
qed

text \<open>
  Claim C1 (as the code has it).  Concatenating the contents of the segments does not
  give back the string when it has a tag: a tag segment holds the trimmed interior of the
  brackets, not the bracketed span.  What holds for every string: the segments cover the
  source exactly once, that is, concatenating in order each text segment's content and,
  for each tag segment, the bracketed span of the extracted tag with that index yields the
  string; and when the string has no tag, concatenating the contents yields the string.
\<close>

theorem stream_covers_source:
  "concat (map (seg_source s (extract_tags (PyStr s))) (build_inline_stream (PyStr s))) = s \<and>
   (extract_tags (PyStr s) = [] \<longrightarrow>
      concat (map seg_content (build_inline_stream (PyStr s))) = s)"
proof (cases "extract_tags (PyStr s) = []")
  case True
  then show ?thesis by (simp add: build_inline_stream_str)
next
  case False
  have d: "distinct (map tag_idx (extract_tags (PyStr s)))"
    by (simp add: extract_tags_idx)
  have b: "\<forall>t \<in> set (extract_tags (PyStr s)). 0 \<le> tag_start t \<and> tag_start t \<le> tag_end t"
    using extract_tags_bounds by fastforce
  from spec_stream_source[OF d subset_refl extract_tags_sorted b, of s]
  show ?thesis using False by (simp add: build_inline_stream_str)
qed

theorem stream_covers_source_witness:
  "concat (map (seg_source (ustr ''[A] mid [B]'') (extract_tags (PyStr (ustr ''[A] mid [B]''))))
       (build_inline_stream (PyStr (ustr ''[A] mid [B]'')))) = ustr ''[A] mid [B]'' \<and>
   concat (map seg_content (build_inline_stream (PyStr (ustr ''no tag'')))) = ustr ''no tag''"
proof -
  have n: "extract_tags (PyStr (ustr ''no tag'')) = []"
    by (simp add: extract_tags_def finditer_def finditer_from.simps tag_match_def strip_def
        isspace_def not_bracket_def ustr_def)
  from stream_covers_source[of "ustr ''[A] mid [B]''"] stream_covers_source[of "ustr ''no tag''"] n
  show ?thesis by blast
qed

text \<open>
  The round trip fails at the specification's own example: the contents of the stream of
  \<open>[A] mid [B]\<close> concatenate to \<open>A mid B\<close>.
\<close>

theorem round_trip_counterexample:
  "concat (map seg_content (build_inline_stream (PyStr (ustr ''[A] mid [B]'')))) = ustr ''A mid B'' \<and>
   concat (map seg_content (build_inline_stream (PyStr (ustr ''[A] mid [B]'')))) \<noteq> ustr ''[A] mid [B]''"
  by (simp add: build_inline_stream_def extract_tags_def finditer_def finditer_from.simps
      tag_match_def strip_def isspace_def not_bracket_def ustr_def slice_def)

end
